theory Spec2Isabelle
  imports Main "HOL-Library.Sublist" "HOL-Library.Code_Target_Nat"
begin

section \<open>Python strings and the built-ins the parser calls\<close>

text \<open>
  A Python \<open>str\<close> is a sequence of Unicode code points; a code point is a natural
  number here, so that \<open>len\<close>, slicing and \<open>split\<close> count what Python counts.
  Literals of the source that are pure ASCII are written with \<open>lit\<close>.
\<close>

type_synonym ustr = "nat list"

definition lit :: "string \<Rightarrow> ustr" where
  "lit s = map of_char s"

datatype error = IndexError

text \<open>
  \<open>str.isspace\<close> on one code point: the white-space set of CPython
  (\<open>_PyUnicode_IsWhitespace\<close>), which is what \<open>str.strip()\<close> without argument removes.
\<close>

definition isspace :: "nat \<Rightarrow> bool" where
  "isspace c \<longleftrightarrow>
     (9 \<le> c \<and> c \<le> 13) \<or> (28 \<le> c \<and> c \<le> 32) \<or> c = 0x85 \<or> c = 0xA0 \<or> c = 0x1680 \<or>
     (0x2000 \<le> c \<and> c \<le> 0x200A) \<or> c = 0x2028 \<or> c = 0x2029 \<or> c = 0x202F \<or>
     c = 0x205F \<or> c = 0x3000"

definition py_strip :: "ustr \<Rightarrow> ustr" where
  "py_strip s = rev (dropWhile isspace (rev (dropWhile isspace s)))"

text \<open>
  \<open>str.upper\<close> maps every code point to its full upper-case expansion (one to three code
  points) and concatenates. On ASCII the expansion is written out. The expansions of
  the code points from U+0080 on come from the Unicode character database of the
  interpreter, which is no part of the program: they are the parameter \<open>ucd\<close>.
\<close>

definition upper_cp :: "(nat \<Rightarrow> ustr) \<Rightarrow> nat \<Rightarrow> ustr" where
  "upper_cp ucd c =
     (if c < 128 then (if 97 \<le> c \<and> c \<le> 122 then [c - 32] else [c]) else ucd c)"

definition py_upper :: "(nat \<Rightarrow> ustr) \<Rightarrow> ustr \<Rightarrow> ustr" where
  "py_upper ucd s = concat (map (upper_cp ucd) s)"

definition py_startswith :: "ustr \<Rightarrow> ustr \<Rightarrow> bool" where
  "py_startswith s p \<longleftrightarrow> prefix p s"

definition py_endswith :: "ustr \<Rightarrow> ustr \<Rightarrow> bool" where
  "py_endswith s p \<longleftrightarrow> suffix p s"

text \<open>\<open>xs[i:j]\<close>: negative bounds count from the end, and both are clamped to the list.\<close>

definition py_slice :: "'a list \<Rightarrow> int \<Rightarrow> int \<Rightarrow> 'a list" where
  "py_slice xs i j =
     (let n = int (length xs);
          a = (if i < 0 then max 0 (n + i) else min n i);
          b = (if j < 0 then max 0 (n + j) else min n j)
      in take (nat b - nat a) (drop (nat a) xs))"

text \<open>\<open>xs[i]\<close>: negative indices count from the end; out of range raises.\<close>

definition py_getitem :: "'a list \<Rightarrow> int \<Rightarrow> error + 'a" where
  "py_getitem xs i =
     (let n = int (length xs) in
      if 0 \<le> i \<and> i < n then Inr (xs ! nat i)
      else if - n \<le> i \<and> i < 0 then Inr (xs ! nat (n + i))
      else Inl IndexError)"

text \<open>\<open>s.split(sep)\<close> for a separator of one code point: every occurrence cuts.\<close>

fun py_split :: "nat \<Rightarrow> ustr \<Rightarrow> ustr list" where
  "py_split sep [] = [[]]"
| "py_split sep (c # cs) =
     (if c = sep then [] # py_split sep cs
      else (case py_split sep cs of [] \<Rightarrow> [[c]] | p # ps \<Rightarrow> (c # p) # ps))"

text \<open>\<open>sep.join(xs)\<close>.\<close>

fun py_join :: "ustr \<Rightarrow> ustr list \<Rightarrow> ustr" where
  "py_join sep [] = []"
| "py_join sep [x] = x"
| "py_join sep (x # y # ys) = x @ sep @ py_join sep (y # ys)"

section \<open>The parser of \<open>analyze_voting.py\<close>\<close>

definition comma :: nat where
  "comma = 44"

definition ABSTENCION :: ustr where
  "ABSTENCION = lit ''ABSTENCI'' @ [0xD3] @ lit ''N''"

definition categorize_result :: "(nat \<Rightarrow> ustr) \<Rightarrow> ustr \<Rightarrow> ustr" where
  "categorize_result ucd raw =
     (let result = py_upper ucd (py_strip raw) in
      if result \<in> set [lit ''SI'', lit ''SI +++''] then lit ''yes''
      else if result \<in> set [lit ''NO'', lit ''NO ---''] then lit ''no''
      else if result \<in> set [lit ''ABST'', ABSTENCION] then lit ''abs''
      else lit ''others'')"

record voting_record =
  team :: ustr
  name :: ustr
  result :: ustr

text \<open>
  The body of the \<open>for line in file\<close> loop: \<open>data\<close> is the list built so far, the value
  is the list after this line, or the exception an index would raise.
\<close>

definition process_line ::
  "(nat \<Rightarrow> ustr) \<Rightarrow> voting_record list \<Rightarrow> ustr \<Rightarrow> error + voting_record list" where
  "process_line ucd data line0 =
     (let line = py_strip line0 in
      if line \<noteq> [] \<and> py_startswith line (lit ''['') \<and> py_endswith line (lit '']'') then
        (let content = py_slice line 1 (- 1);
             parts = map py_strip (py_split comma content)
         in if length parts \<ge> 3 then
              (case py_getitem parts 0 of
                 Inl e \<Rightarrow> Inl e
               | Inr tm \<Rightarrow>
                   (let nm = py_join (lit '', '') (py_slice parts 1 (- 1)) in
                    case py_getitem parts (- 1) of
                      Inl e \<Rightarrow> Inl e
                    | Inr raw_result \<Rightarrow>
                        Inr (data @ [\<lparr>team = tm, name = nm,
                                     result = categorize_result ucd raw_result\<rparr>])))
            else Inr data)
      else Inr data)"

fun read_loop ::
  "(nat \<Rightarrow> ustr) \<Rightarrow> voting_record list \<Rightarrow> ustr list \<Rightarrow> error + voting_record list" where
  "read_loop ucd data [] = Inr data"
| "read_loop ucd data (l # ls) =
     (case process_line ucd data l of
        Inl e \<Rightarrow> Inl e
      | Inr data' \<Rightarrow> read_loop ucd data' ls)"

text \<open>
  \<open>read_voting_data\<close> on the lines the opened file yields; the records stand for the
  rows of the data frame it returns.
\<close>

definition read_voting_data :: "(nat \<Rightarrow> ustr) \<Rightarrow> ustr list \<Rightarrow> error + voting_record list" where
  "read_voting_data ucd lines = read_loop ucd [] lines"

section \<open>The vocabulary of the specification\<close>

text \<open>
  The specification speaks of bracket-delimited trimmed lines, of the tokens of a line
  and of accepted lines. These predicates follow its words; the lemmas below relate
  them to the guards of the code.
\<close>

definition bracketed :: "ustr \<Rightarrow> bool" where
  "bracketed l \<longleftrightarrow> l \<noteq> [] \<and> hd l = 91 \<and> last l = 93"

definition raw_tokens :: "ustr \<Rightarrow> ustr list" where
  "raw_tokens line = py_split comma (butlast (tl (py_strip line)))"

definition tokens :: "ustr \<Rightarrow> ustr list" where
  "tokens line = map py_strip (raw_tokens line)"

definition accepted :: "ustr \<Rightarrow> bool" where
  "accepted line \<longleftrightarrow> bracketed (py_strip line) \<and> 3 \<le> length (tokens line)"

definition record_of :: "(nat \<Rightarrow> ustr) \<Rightarrow> ustr \<Rightarrow> voting_record" where
  "record_of ucd line =
     \<lparr>team = hd (tokens line),
      name = py_join (lit '', '') (butlast (tl (tokens line))),
      result = categorize_result ucd (last (tokens line))\<rparr>"

text \<open>A database in which no code point from U+0080 on has an upper-case form.\<close>

definition caseless_ucd :: "nat \<Rightarrow> ustr" where
  "caseless_ucd c = [c]"

definition example_app :: ustr where
  "example_app =
     lit ''[APP, ACU'' @ [0xD1] @ lit ''A PERALTA, MAR'' @ [0xCD] @ lit ''A GRIMANEZA, SI +++]''"

text \<open>A token is blank when all its characters are white space.\<close>

definition blank :: "ustr \<Rightarrow> bool" where
  "blank t \<longleftrightarrow> list_all isspace t"

text \<open>
  The two facts about the case table that the normal form of a vote token needs.
\<close>

definition upper_idempotent :: "(nat \<Rightarrow> ustr) \<Rightarrow> bool" where
  "upper_idempotent ucd \<longleftrightarrow> (\<forall>c. py_upper ucd (upper_cp ucd c) = upper_cp ucd c)"

definition upper_keeps_edges :: "(nat \<Rightarrow> ustr) \<Rightarrow> bool" where
  "upper_keeps_edges ucd \<longleftrightarrow>
     (\<forall>c. \<not> isspace c \<longrightarrow>
        upper_cp ucd c \<noteq> [] \<and> \<not> isspace (hd (upper_cp ucd c)) \<and>
        \<not> isspace (last (upper_cp ucd c)))"

section \<open>The built-ins at the arguments the parser uses\<close>

lemma py_slice_inner: "py_slice xs 1 (- 1) = butlast (tl xs)"
proof (cases xs)
  case Nil
  then show ?thesis by (simp add: py_slice_def)
next
  case (Cons x ys)
  have "take (length ys - 1) ys = butlast ys"
    by (simp add: butlast_conv_take)
  with Cons show ?thesis
    by (auto simp: py_slice_def Let_def nat_diff_distrib max_def min_def)
qed

lemma py_getitem_first: "xs \<noteq> [] \<Longrightarrow> py_getitem xs 0 = Inr (hd xs)"
  by (cases xs) (simp_all add: py_getitem_def)

lemma py_getitem_last:
  assumes "xs \<noteq> []"
  shows "py_getitem xs (- 1) = Inr (last xs)"
proof -
  from assms obtain ys y where xs: "xs = ys @ [y]"
    by (cases xs rule: rev_cases) auto
  have "nat (int (length ys) + 1 + - 1) = length ys" by simp
  with xs show ?thesis
    by (simp add: py_getitem_def Let_def)
qed

lemma starts_lbracket: "py_startswith l (lit ''['') \<longleftrightarrow> l \<noteq> [] \<and> hd l = 91"
  by (cases l) (auto simp: py_startswith_def lit_def)

lemma ends_rbracket: "py_endswith l (lit '']'') \<longleftrightarrow> l \<noteq> [] \<and> last l = 93"
proof (cases l rule: rev_cases)
  case Nil
  then show ?thesis by (simp add: py_endswith_def lit_def)
next
  case (snoc ys y)
  then show ?thesis by (auto simp: py_endswith_def lit_def suffix_def)
qed

lemma guard_bracketed:
  "l \<noteq> [] \<and> py_startswith l (lit ''['') \<and> py_endswith l (lit '']'') \<longleftrightarrow> bracketed l"
  by (auto simp: starts_lbracket ends_rbracket bracketed_def)

section \<open>The loop body and the loop\<close>

lemma process_line_eq:
  "process_line ucd data line =
     Inr (data @ (if accepted line then [record_of ucd line] else []))"
proof (cases "accepted line")
  case True
  then have ne: "tokens line \<noteq> []" by (auto simp: accepted_def)
  from True show ?thesis
    unfolding process_line_def Let_def guard_bracketed py_slice_inner
    using py_getitem_first [OF ne] py_getitem_last [OF ne]
    by (simp add: accepted_def tokens_def raw_tokens_def record_of_def)
next
  case False
  then show ?thesis
    unfolding process_line_def Let_def guard_bracketed py_slice_inner
    by (auto simp: accepted_def tokens_def raw_tokens_def)
qed

lemma read_loop_eq:
  "read_loop ucd data ls =
     Inr (data @ concat (map (\<lambda>l. if accepted l then [record_of ucd l] else []) ls))"
  by (induction ls arbitrary: data) (simp_all add: process_line_eq)

lemma concat_filter_map:
  "concat (map (\<lambda>l. if P l then [f l] else []) ls) = map f (filter P ls)"
  by (induction ls) simp_all

lemma read_voting_data_eq:
  "read_voting_data ucd ls = Inr (map (record_of ucd) (filter accepted ls))"
  by (simp add: read_voting_data_def read_loop_eq concat_filter_map)

section \<open>Trimming and upper-casing\<close>

lemma py_strip_Nil: "py_strip [] = []"
  by (simp add: py_strip_def)

lemma py_strip_fixed:
  assumes "s \<noteq> []" and "\<not> isspace (hd s)" and "\<not> isspace (last s)"
  shows "py_strip s = s"
proof -
  from assms(1,2) have a: "dropWhile isspace s = s"
    by (cases s) simp_all
  from assms(1,3) have "dropWhile isspace (rev s) = rev s"
    by (cases s rule: rev_cases) simp_all
  with a show ?thesis by (simp add: py_strip_def)
qed

lemma py_strip_edges:
  assumes "py_strip s \<noteq> []"
  shows "\<not> isspace (hd (py_strip s)) \<and> \<not> isspace (last (py_strip s))"
proof -
  let ?d = "dropWhile isspace s"
  let ?e = "dropWhile isspace (rev ?d)"
  from assms have e: "?e \<noteq> []" by (simp add: py_strip_def)
  have d: "?d \<noteq> []"
  proof
    assume a: "?d = []"
    have "?e = []" unfolding a by simp
    with e show False by contradiction
  qed
  from e have l: "\<not> isspace (hd ?e)" by (rule hd_dropWhile)
  from d have h: "\<not> isspace (hd ?d)" by (rule hd_dropWhile)
  have "suffix ?e (rev ?d)" by (rule suffix_dropWhile)
  then obtain zs where z: "rev ?d = zs @ ?e" by (auto simp: suffix_def)
  then have "?d = rev ?e @ rev zs" by (metis rev_append rev_rev_ident)
  with e have "hd ?d = hd (rev ?e)" by (metis hd_append2 rev_is_Nil_conv)
  with h have "\<not> isspace (hd (rev ?e))" by simp
  moreover from e l have "\<not> isspace (last (rev ?e))" by (simp add: last_rev)
  ultimately show ?thesis by (simp add: py_strip_def)
qed

lemma py_strip_idem: "py_strip (py_strip s) = py_strip s"
proof (cases "py_strip s = []")
  case True
  then show ?thesis by (simp add: py_strip_Nil)
next
  case False
  with py_strip_edges [OF False] show ?thesis by (simp add: py_strip_fixed)
qed

lemma py_upper_append: "py_upper ucd (xs @ ys) = py_upper ucd xs @ py_upper ucd ys"
  by (simp add: py_upper_def)

lemma py_upper_idem:
  assumes "upper_idempotent ucd"
  shows "py_upper ucd (py_upper ucd s) = py_upper ucd s"
proof (induction s)
  case Nil
  show ?case by (simp add: py_upper_def)
next
  case (Cons c cs)
  have "py_upper ucd (c # cs) = upper_cp ucd c @ py_upper ucd cs"
    by (simp add: py_upper_def)
  moreover from assms have "py_upper ucd (upper_cp ucd c) = upper_cp ucd c"
    by (simp add: upper_idempotent_def)
  ultimately show ?case using Cons.IH by (simp add: py_upper_append)
qed

lemma py_upper_edges:
  assumes "upper_keeps_edges ucd" and "s \<noteq> []"
    and "\<not> isspace (hd s)" and "\<not> isspace (last s)"
  shows "py_upper ucd s \<noteq> [] \<and> \<not> isspace (hd (py_upper ucd s)) \<and>
         \<not> isspace (last (py_upper ucd s))"
proof -
  from assms(2) obtain c cs where s: "s = c # cs" by (cases s) auto
  from assms(2) obtain ds d where s': "s = ds @ [d]" by (cases s rule: rev_cases) auto
  from s assms(1,3) have c: "upper_cp ucd c \<noteq> []" "\<not> isspace (hd (upper_cp ucd c))"
    by (simp_all add: upper_keeps_edges_def)
  from s' assms(1,4) have d: "upper_cp ucd d \<noteq> []" "\<not> isspace (last (upper_cp ucd d))"
    by (simp_all add: upper_keeps_edges_def)
  have u1: "py_upper ucd s = upper_cp ucd c @ py_upper ucd cs"
    by (simp add: s py_upper_def)
  have u2: "py_upper ucd s = py_upper ucd ds @ upper_cp ucd d"
    by (simp add: s' py_upper_def)
  from u1 c have "py_upper ucd s \<noteq> []" "\<not> isspace (hd (py_upper ucd s))"
    by simp_all
  moreover from u2 d have "\<not> isspace (last (py_upper ucd s))"
    by simp
  ultimately show ?thesis by simp
qed

lemma normalise_idem:
  assumes "upper_idempotent ucd" and "upper_keeps_edges ucd"
  shows "py_upper ucd (py_strip (py_upper ucd (py_strip s))) = py_upper ucd (py_strip s)"
proof (cases "py_strip s = []")
  case True
  then show ?thesis by (simp add: py_upper_def py_strip_Nil)
next
  case False
  from py_strip_edges [OF False] py_upper_edges [OF assms(2) False]
  have "py_strip (py_upper ucd (py_strip s)) = py_upper ucd (py_strip s)"
    by (simp add: py_strip_fixed)
  with py_upper_idem [OF assms(1)] show ?thesis by simp
qed

lemma caseless_idempotent: "upper_idempotent caseless_ucd"
  by (auto simp: upper_idempotent_def py_upper_def upper_cp_def caseless_ucd_def)

lemma caseless_keeps_edges: "upper_keeps_edges caseless_ucd"
  by (auto simp: upper_keeps_edges_def upper_cp_def caseless_ucd_def isspace_def)

lemma py_strip_empty_iff: "py_strip t = [] \<longleftrightarrow> blank t"
proof
  assume "py_strip t = []"
  then have all: "\<forall>x\<in>set (dropWhile isspace t). isspace x"
    by (simp add: py_strip_def)
  have "dropWhile isspace t = []"
  proof (rule ccontr)
    assume ne: "dropWhile isspace t \<noteq> []"
    then have "\<not> isspace (hd (dropWhile isspace t))" by (rule hd_dropWhile)
    moreover from ne have "hd (dropWhile isspace t) \<in> set (dropWhile isspace t)" by simp
    ultimately show False using all by blast
  qed
  then show "blank t" by (simp add: blank_def list_all_iff)
next
  assume "blank t"
  then have d: "dropWhile isspace t = []" by (simp add: blank_def list_all_iff)
  show "py_strip t = []" unfolding py_strip_def d by simp
qed

lemma py_join_empty_iff:
  "sep \<noteq> [] \<Longrightarrow> py_join sep xs = [] \<longleftrightarrow> xs = [] \<or> xs = [[]]"
  by (induction sep xs rule: py_join.induct) simp_all

lemma comma_blank_nonempty: "lit '', '' \<noteq> []"
  by (simp add: lit_def)

lemma middle_of_three:
  assumes "length xs = 3"
  shows "butlast (tl xs) = [xs ! 1]"
proof -
  from assms obtain a b c where "xs = [a, b, c]"
    by (cases xs; cases "tl xs"; cases "tl (tl xs)") auto
  then show ?thesis by simp
qed

section \<open>Splitting and joining\<close>

lemma py_split_nonempty: "py_split sep s \<noteq> []"
  by (cases s) (simp_all split: list.splits)

lemma py_join_Cons_Cons: "py_join sep ((c # p) # ps) = c # py_join sep (p # ps)"
  by (cases ps) simp_all

lemma py_join_split: "py_join [sep] (py_split sep s) = s"
proof (induction s)
  case Nil
  show ?case by simp
next
  case (Cons c cs)
  obtain p ps where sp: "py_split sep cs = p # ps"
    using py_split_nonempty [of sep cs] by (cases "py_split sep cs") auto
  with Cons show ?case
    by (simp add: py_join_Cons_Cons)
qed

lemma py_split_hd_prefix: "prefix (hd (py_split sep s)) s"
proof (induction s)
  case Nil
  show ?case by simp
next
  case (Cons c cs)
  obtain p ps where sp: "py_split sep cs = p # ps"
    using py_split_nonempty [of sep cs] by (cases "py_split sep cs") auto
  with Cons show ?case by simp
qed

lemma py_split_sublist: "t \<in> set (py_split sep s) \<Longrightarrow> sublist t s"
proof (induction s arbitrary: t)
  case Nil
  then show ?case by simp
next
  case (Cons c cs)
  obtain p ps where sp: "py_split sep cs = p # ps"
    using py_split_nonempty [of sep cs] by (cases "py_split sep cs") auto
  have p: "prefix p cs"
    using py_split_hd_prefix [of sep cs] by (simp add: sp)
  show ?case
  proof (cases "c = sep")
    case True
    with Cons.prems have "t = [] \<or> t \<in> set (py_split sep cs)" by simp
    then show ?thesis
    proof
      assume "t = []"
      then show ?thesis by simp
    next
      assume "t \<in> set (py_split sep cs)"
      then have "sublist t cs" by (rule Cons.IH)
      then show ?thesis by (simp add: sublist_Cons_right)
    qed
  next
    case False
    with Cons.prems sp have "t = c # p \<or> t \<in> set ps" by simp
    then show ?thesis
    proof
      assume "t = c # p"
      with p have "prefix t (c # cs)" by simp
      then show ?thesis by (rule prefix_imp_sublist)
    next
      assume "t \<in> set ps"
      then have "t \<in> set (py_split sep cs)" by (simp add: sp)
      then have "sublist t cs" by (rule Cons.IH)
      then show ?thesis by (simp add: sublist_Cons_right)
    qed
  qed
qed

lemma sublist_py_strip: "sublist (py_strip t) t"
proof -
  let ?d = "dropWhile isspace t"
  have "suffix (dropWhile isspace (rev ?d)) (rev ?d)" by (rule suffix_dropWhile)
  then have "prefix (py_strip t) ?d"
    by (simp add: suffix_to_prefix py_strip_def)
  moreover have "suffix ?d t" by (rule suffix_dropWhile)
  ultimately show ?thesis by (auto simp: sublist_altdef')
qed

lemma content_sublist: "sublist (butlast (tl (py_strip line))) line"
proof -
  have "sublist (butlast (tl (py_strip line))) (tl (py_strip line))" by simp
  also have "sublist (tl (py_strip line)) (py_strip line)" by simp
  also have "sublist (py_strip line) line" by (rule sublist_py_strip)
  finally show ?thesis .
qed

lemma raw_token_sublist:
  assumes "t \<in> set (raw_tokens line)"
  shows "sublist (py_strip t) line"
proof -
  have "sublist (py_strip t) t" by (rule sublist_py_strip)
  also from assms have "sublist t (butlast (tl (py_strip line)))"
    by (simp add: raw_tokens_def py_split_sublist)
  also have "sublist (butlast (tl (py_strip line))) line" by (rule content_sublist)
  finally show ?thesis .
qed

lemma record_of_fields:
  assumes "accepted line"
  shows "team (record_of ucd line) = py_strip (hd (raw_tokens line))"
    and "name (record_of ucd line) =
           py_join (lit '', '') (map py_strip (butlast (tl (raw_tokens line))))"
proof -
  from assms have "raw_tokens line \<noteq> []"
    by (auto simp: accepted_def tokens_def)
  then show "team (record_of ucd line) = py_strip (hd (raw_tokens line))"
    by (simp add: record_of_def tokens_def hd_map)
  show "name (record_of ucd line) =
           py_join (lit '', '') (map py_strip (butlast (tl (raw_tokens line))))"
    by (simp add: record_of_def tokens_def map_butlast map_tl)
qed

section \<open>The literals of the table\<close>

lemma lit_distinct:
  "lit ''yes'' \<noteq> lit ''no''" "lit ''yes'' \<noteq> lit ''abs''" "lit ''yes'' \<noteq> lit ''others''"
  "lit ''no'' \<noteq> lit ''abs''" "lit ''no'' \<noteq> lit ''others''" "lit ''abs'' \<noteq> lit ''others''"
  by (simp_all add: lit_def)

lemma table_distinct:
  "lit ''SI'' \<noteq> lit ''NO''" "lit ''SI'' \<noteq> lit ''NO ---''" "lit ''SI'' \<noteq> lit ''ABST''"
  "lit ''SI'' \<noteq> ABSTENCION" "lit ''SI +++'' \<noteq> lit ''NO''" "lit ''SI +++'' \<noteq> lit ''NO ---''"
  "lit ''SI +++'' \<noteq> lit ''ABST''" "lit ''SI +++'' \<noteq> ABSTENCION"
  "lit ''NO'' \<noteq> lit ''ABST''" "lit ''NO'' \<noteq> ABSTENCION"
  "lit ''NO ---'' \<noteq> lit ''ABST''" "lit ''NO ---'' \<noteq> ABSTENCION"
  by (simp_all add: lit_def ABSTENCION_def)

section \<open>Claims\<close>

text \<open>
  C1. A line whose trimmed form is bracket-delimited and whose tokens are a group \<open>G\<close>,
  one or more middle tokens \<open>Ns\<close> and a last token \<open>T\<close> yields exactly one record: its
  group is \<open>G\<close>, its name is the middle tokens joined with comma and blank, and its
  category is the classification of \<open>T\<close>.
\<close>

theorem well_formed_line_record:
  assumes "bracketed (py_strip line)"
    and "tokens line = G # Ns @ [T]"
    and "Ns \<noteq> []"
  shows "read_voting_data ucd [line] =
           Inr [\<lparr>team = G, name = py_join (lit '', '') Ns,
                 result = categorize_result ucd T\<rparr>]"
proof -
  from assms(3) have "3 \<le> length (G # Ns @ [T])"
    by (cases Ns) simp_all
  with assms(1,2) have acc: "accepted line"
    by (simp add: accepted_def)
  have "record_of ucd line =
          \<lparr>team = G, name = py_join (lit '', '') Ns, result = categorize_result ucd T\<rparr>"
    by (simp add: record_of_def assms(2))
  with acc show ?thesis
    by (simp add: read_voting_data_eq)
qed

theorem well_formed_line_record_witness:
  "bracketed (py_strip example_app) \<and>
   tokens example_app =
     lit ''APP'' # [lit ''ACU'' @ [0xD1] @ lit ''A PERALTA'', lit ''MAR'' @ [0xCD] @ lit ''A GRIMANEZA'']
       @ [lit ''SI +++''] \<and>
   read_voting_data caseless_ucd [example_app] =
     Inr [\<lparr>team = lit ''APP'',
           name = lit ''ACU'' @ [0xD1] @ lit ''A PERALTA, MAR'' @ [0xCD] @ lit ''A GRIMANEZA'',
           result = lit ''yes''\<rparr>]"
proof -
  have h1: "bracketed (py_strip example_app)"
    by code_simp
  have h2: "tokens example_app =
      lit ''APP'' # [lit ''ACU'' @ [0xD1] @ lit ''A PERALTA'', lit ''MAR'' @ [0xCD] @ lit ''A GRIMANEZA'']
        @ [lit ''SI +++'']"
    by code_simp
  have h3: "[lit ''ACU'' @ [0xD1] @ lit ''A PERALTA'', lit ''MAR'' @ [0xCD] @ lit ''A GRIMANEZA''] \<noteq> []"
    by simp
  have h4: "py_join (lit '', '')
      [lit ''ACU'' @ [0xD1] @ lit ''A PERALTA'', lit ''MAR'' @ [0xCD] @ lit ''A GRIMANEZA''] =
      lit ''ACU'' @ [0xD1] @ lit ''A PERALTA, MAR'' @ [0xCD] @ lit ''A GRIMANEZA''"
    by code_simp
  have h5: "categorize_result caseless_ucd (lit ''SI +++'') = lit ''yes''"
    by code_simp
  from well_formed_line_record [OF h1 h2 h3, of caseless_ucd] h1 h2 h4 h5
  show ?thesis by simp
qed

text \<open>
  C2. The classification is an exact-match table over the upper-cased, trimmed token:
  \<open>yes\<close> exactly for \<open>SI\<close> and \<open>SI +++\<close>, \<open>no\<close> exactly for \<open>NO\<close> and \<open>NO ---\<close>,
  \<open>abs\<close> exactly for \<open>ABST\<close> and \<open>ABSTENCION\<close>, \<open>others\<close> for every other string; there
  is no prefix or substring matching, so \<open>LP\<close> and \<open>aus\<close> are \<open>others\<close>.
\<close>

theorem categorize_result_exact_match:
  "(categorize_result ucd raw = lit ''yes'' \<longleftrightarrow>
      py_upper ucd (py_strip raw) \<in> {lit ''SI'', lit ''SI +++''}) \<and>
   (categorize_result ucd raw = lit ''no'' \<longleftrightarrow>
      py_upper ucd (py_strip raw) \<in> {lit ''NO'', lit ''NO ---''}) \<and>
   (categorize_result ucd raw = lit ''abs'' \<longleftrightarrow>
      py_upper ucd (py_strip raw) \<in> {lit ''ABST'', ABSTENCION}) \<and>
   (categorize_result ucd raw = lit ''others'' \<longleftrightarrow>
      py_upper ucd (py_strip raw) \<notin>
        {lit ''SI'', lit ''SI +++'', lit ''NO'', lit ''NO ---'', lit ''ABST'', ABSTENCION}) \<and>
   categorize_result ucd (lit ''LP'') = lit ''others'' \<and>
   categorize_result ucd (lit ''aus'') = lit ''others'' \<and>
   categorize_result ucd (lit ''SI ++'') = lit ''others'' \<and>
   categorize_result ucd (lit ''NO --- X'') = lit ''others''"
proof -
  have t: "categorize_result ucd raw =
      (if py_upper ucd (py_strip raw) \<in> {lit ''SI'', lit ''SI +++''} then lit ''yes''
       else if py_upper ucd (py_strip raw) \<in> {lit ''NO'', lit ''NO ---''} then lit ''no''
       else if py_upper ucd (py_strip raw) \<in> {lit ''ABST'', ABSTENCION} then lit ''abs''
       else lit ''others'')"
    by (simp add: categorize_result_def Let_def)
  have e1: "categorize_result ucd (lit ''LP'') = lit ''others''"
    by (simp add: categorize_result_def Let_def lit_def py_strip_def isspace_def py_upper_def
        upper_cp_def ABSTENCION_def)
  have e2: "categorize_result ucd (lit ''aus'') = lit ''others''"
    by (simp add: categorize_result_def Let_def lit_def py_strip_def isspace_def py_upper_def
        upper_cp_def ABSTENCION_def)
  have e3: "categorize_result ucd (lit ''SI ++'') = lit ''others''"
    by (simp add: categorize_result_def Let_def lit_def py_strip_def isspace_def py_upper_def
        upper_cp_def ABSTENCION_def)
  have e4: "categorize_result ucd (lit ''NO --- X'') = lit ''others''"
    by (simp add: categorize_result_def Let_def lit_def py_strip_def isspace_def py_upper_def
        upper_cp_def ABSTENCION_def)
  have y: "categorize_result ucd raw = lit ''yes'' \<longleftrightarrow>
      py_upper ucd (py_strip raw) \<in> {lit ''SI'', lit ''SI +++''}"
    unfolding t using lit_distinct table_distinct by auto
  have n: "categorize_result ucd raw = lit ''no'' \<longleftrightarrow>
      py_upper ucd (py_strip raw) \<in> {lit ''NO'', lit ''NO ---''}"
    unfolding t using lit_distinct table_distinct by auto
  have a: "categorize_result ucd raw = lit ''abs'' \<longleftrightarrow>
      py_upper ucd (py_strip raw) \<in> {lit ''ABST'', ABSTENCION}"
    unfolding t using lit_distinct table_distinct by auto
  have ot: "categorize_result ucd raw = lit ''others'' \<longleftrightarrow>
      py_upper ucd (py_strip raw) \<notin>
        {lit ''SI'', lit ''SI +++'', lit ''NO'', lit ''NO ---'', lit ''ABST'', ABSTENCION}"
    unfolding t using lit_distinct table_distinct by auto
  from y n a ot e1 e2 e3 e4 show ?thesis by blast
qed

text \<open>
  C3. Classification is insensitive to case and to white space at the edges: a string
  and its upper-cased, trimmed form get the same category, and \<open>" si +++ "\<close> classifies
  as \<open>"SI +++"\<close> does. For code points from U+0080 on this rests on two facts of the
  interpreter's case table: upper-casing is idempotent, and the upper-case form of a
  code point that is no white space neither is empty nor starts or ends with white space.
\<close>

theorem categorize_result_normalised:
  assumes "upper_idempotent ucd" and "upper_keeps_edges ucd"
  shows "categorize_result ucd s = categorize_result ucd (py_upper ucd (py_strip s)) \<and>
         categorize_result ucd (lit '' si +++ '') = categorize_result ucd (lit ''SI +++'')"
proof -
  have "categorize_result ucd s = categorize_result ucd (py_upper ucd (py_strip s))"
    by (simp add: categorize_result_def normalise_idem [OF assms])
  moreover have "py_upper ucd (py_strip (lit '' si +++ '')) = py_upper ucd (py_strip (lit ''SI +++''))"
    by (simp add: lit_def py_strip_def isspace_def py_upper_def upper_cp_def)
  then have "categorize_result ucd (lit '' si +++ '') = categorize_result ucd (lit ''SI +++'')"
    by (simp add: categorize_result_def)
  ultimately show ?thesis by simp
qed

theorem categorize_result_normalised_witness:
  "upper_idempotent caseless_ucd \<and> upper_keeps_edges caseless_ucd \<and>
   categorize_result caseless_ucd (lit '' Abst '') = lit ''abs'' \<and>
   categorize_result caseless_ucd (py_upper caseless_ucd (py_strip (lit '' Abst ''))) = lit ''abs'' \<and>
   categorize_result caseless_ucd (lit '' si +++ '') = categorize_result caseless_ucd (lit ''SI +++'')"
proof -
  have e: "categorize_result caseless_ucd (lit '' Abst '') = lit ''abs''"
    by code_simp
  from categorize_result_normalised [OF caseless_idempotent caseless_keeps_edges, of "lit '' Abst ''"]
    e caseless_idempotent caseless_keeps_edges
  show ?thesis by simp
qed

text \<open>
  C4. A line whose trimmed form does not both start with an opening and end with a
  closing bracket produces no record and no error, alone or anywhere in a file.
\<close>

theorem unbracketed_line_skipped:
  assumes "\<not> (py_startswith (py_strip line) (lit ''['') \<and> py_endswith (py_strip line) (lit '']''))"
  shows "read_voting_data ucd [line] = Inr [] \<and>
         read_voting_data ucd (before @ line # after) = read_voting_data ucd (before @ after)"
proof -
  from assms have "\<not> bracketed (py_strip line)"
    by (auto simp: starts_lbracket ends_rbracket bracketed_def)
  then have "\<not> accepted line"
    by (simp add: accepted_def)
  then show ?thesis
    by (simp add: read_voting_data_eq)
qed

theorem unbracketed_line_skipped_witness:
  "\<not> (py_startswith (py_strip (lit ''APP, X, Y, SI +++]'')) (lit ''['') \<and>
      py_endswith (py_strip (lit ''APP, X, Y, SI +++]'')) (lit '']'')) \<and>
   read_voting_data caseless_ucd [lit ''APP, X, Y, SI +++]''] = Inr [] \<and>
   read_voting_data caseless_ucd ([example_app] @ lit ''APP, X, Y, SI +++]'' # [example_app]) =
     read_voting_data caseless_ucd ([example_app] @ [example_app])"
proof -
  have h: "\<not> (py_startswith (py_strip (lit ''APP, X, Y, SI +++]'')) (lit ''['') \<and>
      py_endswith (py_strip (lit ''APP, X, Y, SI +++]'')) (lit '']''))"
    by code_simp
  from unbracketed_line_skipped [OF h, of caseless_ucd "[example_app]" "[example_app]"] h
  show ?thesis by simp
qed

text \<open>
  C5. A bracket-delimited line whose content between the brackets splits on the comma
  into fewer than three tokens produces no record and no error.
\<close>

theorem short_line_skipped:
  assumes "bracketed (py_strip line)"
    and "length (py_split comma (butlast (tl (py_strip line)))) < 3"
  shows "read_voting_data ucd [line] = Inr [] \<and>
         read_voting_data ucd (before @ line # after) = read_voting_data ucd (before @ after)"
proof -
  from assms(2) have "\<not> accepted line"
    by (simp add: accepted_def tokens_def raw_tokens_def)
  then show ?thesis
    by (simp add: read_voting_data_eq)
qed

theorem short_line_skipped_witness:
  "bracketed (py_strip (lit ''[APP, SI +++]'')) \<and>
   length (py_split comma (butlast (tl (py_strip (lit ''[APP, SI +++]''))))) < 3 \<and>
   read_voting_data caseless_ucd [lit ''[APP, SI +++]''] = Inr [] \<and>
   read_voting_data caseless_ucd ([example_app] @ lit ''[APP, SI +++]'' # []) =
     read_voting_data caseless_ucd ([example_app] @ [])"
proof -
  have h1: "bracketed (py_strip (lit ''[APP, SI +++]''))"
    by code_simp
  have h2: "length (py_split comma (butlast (tl (py_strip (lit ''[APP, SI +++]''))))) < 3"
    by code_simp
  from short_line_skipped [OF h1 h2, of caseless_ucd "[example_app]" "[]"] h1 h2
  show ?thesis by simp
qed

text \<open>
  C6. The parser never raises: on every sequence of lines it returns a sequence of
  records, with at most one record for each line.
\<close>

theorem read_voting_data_total:
  "\<exists>recs. read_voting_data ucd ls = Inr recs \<and> length recs \<le> length ls"
  by (simp add: read_voting_data_eq)

text \<open>
  C7, as the code has it. The parser does not check that a token is non-empty: the line
  \<open>[,,SI]\<close> is accepted and gives a record whose group and name are both empty.
\<close>

theorem empty_group_and_name_counterexample:
  "read_voting_data caseless_ucd [lit ''[,,SI]''] =
     Inr [\<lparr>team = [], name = [], result = lit ''yes''\<rparr>]"
  by code_simp

text \<open>
  C7, amended. The group of a record is non-empty exactly when the first token of its
  line has a character that is no white space; its name is non-empty exactly when the
  line has two or more middle tokens, or its only middle token has such a character.
\<close>

theorem record_fields_nonempty_iff:
  assumes "read_voting_data ucd [line] = Inr [r]"
  shows "(team r \<noteq> [] \<longleftrightarrow> \<not> blank (hd (raw_tokens line))) \<and>
         (name r \<noteq> [] \<longleftrightarrow> \<not> (length (raw_tokens line) = 3 \<and> blank (raw_tokens line ! 1)))"
proof -
  from assms have acc: "accepted line" and r: "r = record_of ucd line"
    by (auto simp: read_voting_data_eq split: if_splits)
  let ?raw = "raw_tokens line"
  from acc have len: "3 \<le> length ?raw"
    by (simp add: accepted_def tokens_def)
  then have ne: "?raw \<noteq> []" by auto
  have "team r = py_strip (hd ?raw)"
    using ne by (simp add: r record_of_def tokens_def hd_map)
  then have g: "team r \<noteq> [] \<longleftrightarrow> \<not> blank (hd ?raw)"
    by (simp add: py_strip_empty_iff)
  have nm: "name r = py_join (lit '', '') (map py_strip (butlast (tl ?raw)))"
    by (simp add: r record_of_def tokens_def map_butlast map_tl)
  have n: "name r \<noteq> [] \<longleftrightarrow> \<not> (length ?raw = 3 \<and> blank (?raw ! 1))"
  proof (cases "length ?raw = 3")
    case True
    then show ?thesis
      by (simp add: nm middle_of_three py_strip_empty_iff)
  next
    case False
    with len have "2 \<le> length (map py_strip (butlast (tl ?raw)))"
      by simp
    then have "map py_strip (butlast (tl ?raw)) \<noteq> [] \<and> map py_strip (butlast (tl ?raw)) \<noteq> [[]]"
      by (cases "butlast (tl ?raw)") auto
    with False show ?thesis
      by (simp add: nm py_join_empty_iff [OF comma_blank_nonempty])
  qed
  from g n show ?thesis by simp
qed

theorem record_fields_nonempty_iff_witness:
  "read_voting_data caseless_ucd [lit ''[PP, , SI]''] =
     Inr [\<lparr>team = lit ''PP'', name = [], result = lit ''yes''\<rparr>] \<and>
   \<not> blank (hd (raw_tokens (lit ''[PP, , SI]''))) \<and>
   length (raw_tokens (lit ''[PP, , SI]'')) = 3 \<and> blank (raw_tokens (lit ''[PP, , SI]'') ! 1)"
proof -
  have h: "read_voting_data caseless_ucd [lit ''[PP, , SI]''] =
     Inr [\<lparr>team = lit ''PP'', name = [], result = lit ''yes''\<rparr>]"
    by code_simp
  have p: "lit ''PP'' \<noteq> []" by (simp add: lit_def)
  from record_fields_nonempty_iff [OF h] h p show ?thesis by simp
qed

text \<open>
  C9. The parser is an order-preserving filter and map: its output is the record of each
  accepted line, in the order of the lines, and nothing else.
\<close>

theorem read_voting_data_filter_map:
  "read_voting_data ucd ls = Inr (map (record_of ucd) (filter accepted ls)) \<and>
   read_voting_data ucd (ls @ ls') =
     Inr (map (record_of ucd) (filter accepted ls) @ map (record_of ucd) (filter accepted ls'))"
  by (simp add: read_voting_data_eq)

text \<open>
  C10. Group and name are taken from the line as they stand. They do not depend on the
  case table; the tokens are the pieces of the text between the brackets cut at the
  commas (joined again with commas they give that text back); the group is the trimmed
  first piece and the name the trimmed middle pieces joined with comma and blank; the
  group and every trimmed middle piece occur in the line as contiguous runs of its
  characters.
\<close>

theorem group_and_name_verbatim:
  assumes "read_voting_data ucd ls = Inr recs"
  shows "(\<exists>recs'. read_voting_data ucd' ls = Inr recs' \<and>
            map team recs' = map team recs \<and> map name recs' = map name recs) \<and>
         (\<forall>r\<in>set recs. \<exists>line\<in>set ls.
            py_join [comma] (raw_tokens line) = butlast (tl (py_strip line)) \<and>
            team r = py_strip (hd (raw_tokens line)) \<and>
            name r = py_join (lit '', '') (map py_strip (butlast (tl (raw_tokens line)))) \<and>
            sublist (team r) line \<and>
            (\<forall>m\<in>set (butlast (tl (raw_tokens line))). sublist (py_strip m) line))"
proof -
  from assms have recs: "recs = map (record_of ucd) (filter accepted ls)"
    by (simp add: read_voting_data_eq)
  have "map team (map (record_of ucd') (filter accepted ls)) = map team recs"
    by (simp add: recs record_of_def)
  moreover have "map name (map (record_of ucd') (filter accepted ls)) = map name recs"
    by (simp add: recs record_of_def)
  ultimately have indep: "\<exists>recs'. read_voting_data ucd' ls = Inr recs' \<and>
      map team recs' = map team recs \<and> map name recs' = map name recs"
    by (simp add: read_voting_data_eq)
  have each: "\<exists>line\<in>set ls.
      py_join [comma] (raw_tokens line) = butlast (tl (py_strip line)) \<and>
      team r = py_strip (hd (raw_tokens line)) \<and>
      name r = py_join (lit '', '') (map py_strip (butlast (tl (raw_tokens line)))) \<and>
      sublist (team r) line \<and>
      (\<forall>m\<in>set (butlast (tl (raw_tokens line))). sublist (py_strip m) line)"
    if "r \<in> set recs" for r
  proof -
    from that recs obtain line where line: "line \<in> set ls" "accepted line"
      and r: "r = record_of ucd line"
      by auto
    from line(2) have ne: "raw_tokens line \<noteq> []"
      by (auto simp: accepted_def tokens_def)
    have j: "py_join [comma] (raw_tokens line) = butlast (tl (py_strip line))"
      by (simp add: raw_tokens_def py_join_split)
    have t: "team r = py_strip (hd (raw_tokens line))"
      and n: "name r = py_join (lit '', '') (map py_strip (butlast (tl (raw_tokens line))))"
      by (simp_all add: r record_of_fields [OF line(2)])
    from ne have "hd (raw_tokens line) \<in> set (raw_tokens line)" by simp
    then have st: "sublist (team r) line"
      unfolding t by (rule raw_token_sublist)
    have sm: "sublist (py_strip m) line" if "m \<in> set (butlast (tl (raw_tokens line)))" for m
    proof -
      from that have "m \<in> set (tl (raw_tokens line))" by (rule in_set_butlastD)
      with ne have "m \<in> set (raw_tokens line)" by (simp add: list.set_sel(2))
      then show ?thesis by (rule raw_token_sublist)
    qed
    from line(1) j t n st sm show ?thesis by blast
  qed
  from indep each show ?thesis by blast
qed

theorem group_and_name_verbatim_witness:
  "read_voting_data caseless_ucd [example_app] =
     Inr [\<lparr>team = lit ''APP'',
           name = lit ''ACU'' @ [0xD1] @ lit ''A PERALTA, MAR'' @ [0xCD] @ lit ''A GRIMANEZA'',
           result = lit ''yes''\<rparr>] \<and>
   (\<exists>recs'. read_voting_data (\<lambda>c. []) [example_app] = Inr recs' \<and>
      map team recs' = [lit ''APP''] \<and>
      map name recs' =
        [lit ''ACU'' @ [0xD1] @ lit ''A PERALTA, MAR'' @ [0xCD] @ lit ''A GRIMANEZA'']) \<and>
   sublist (lit ''APP'') example_app"
proof -
  let ?R = "\<lparr>team = lit ''APP'',
           name = lit ''ACU'' @ [0xD1] @ lit ''A PERALTA, MAR'' @ [0xCD] @ lit ''A GRIMANEZA'',
           result = lit ''yes''\<rparr>"
  have h: "read_voting_data caseless_ucd [example_app] = Inr [?R]"
    by code_simp
  note t = group_and_name_verbatim [OF h, of "\<lambda>c. []"]
  from conjunct1 [OF t] have a: "\<exists>recs'. read_voting_data (\<lambda>c. []) [example_app] = Inr recs' \<and>
      map team recs' = [lit ''APP''] \<and>
      map name recs' =
        [lit ''ACU'' @ [0xD1] @ lit ''A PERALTA, MAR'' @ [0xCD] @ lit ''A GRIMANEZA'']"
    by simp
  from conjunct2 [OF t] have b: "sublist (lit ''APP'') example_app"
    by auto
  from h a b show ?thesis by blast
qed

end
